theory Spec2Isabelle
  imports Complex_Main "HOL-Library.Word"
begin

unbundle bit_operations_syntax

section \<open>Host values: byte arrays, errors, 32-bit operators\<close>

text \<open>
  A \<^verbatim>\<open>Uint8Array\<close> is a list of 8-bit words. A BigInt is an \<^typ>\<open>int\<close>, and so is a
  Number that the code computes itself and that is an integer by construction (a byte
  read from an array, a result of the 32-bit operators). Offsets and sizes are
  non-negative integers and are modelled as \<^typ>\<open>nat\<close>.
\<close>

type_synonym byte = "8 word"
type_synonym Uint8Array = "byte list"

datatype error = TypeError string | RangeError string

text \<open>
  A Number that a caller passes as a value to write: a finite number, \<^verbatim>\<open>NaN\<close>, or one of
  the two infinities. Every finite double is a rational, so the finite numbers are
  modelled as \<^typ>\<open>rat\<close>.
\<close>

datatype number = Finite rat | NaN | PosInfinity | NegInfinity

text \<open>
  The comparison \<^verbatim>\<open>a < b\<close> on Numbers (\<^verbatim>\<open>a > b\<close> is \<^verbatim>\<open>b < a\<close>): every comparison
  with \<^verbatim>\<open>NaN\<close> is false.
\<close>

fun js_lt :: "number \<Rightarrow> number \<Rightarrow> bool" where
  "js_lt NaN b = False"
| "js_lt a NaN = False"
| "js_lt (Finite a) (Finite b) = (a < b)"
| "js_lt (Finite a) PosInfinity = True"
| "js_lt (Finite a) NegInfinity = False"
| "js_lt PosInfinity b = False"
| "js_lt NegInfinity (Finite b) = True"
| "js_lt NegInfinity PosInfinity = True"
| "js_lt NegInfinity NegInfinity = False"

text \<open>
  The integer that the modular conversions (to a byte on a typed-array store, to 32 bits
  for \<^verbatim>\<open>>>\<close> and \<^verbatim>\<open>&\<close>) start from: \<^verbatim>\<open>NaN\<close> and the infinities give 0, a finite
  number is truncated towards zero.
\<close>

fun js_trunc :: "number \<Rightarrow> int" where
  "js_trunc (Finite q) = (if q < 0 then \<lceil>q\<rceil> else \<lfloor>q\<rfloor>)"
| "js_trunc NaN = 0"
| "js_trunc PosInfinity = 0"
| "js_trunc NegInfinity = 0"

text \<open>
  \<^verbatim>\<open>a[i]\<close> on a typed array. Every read in the sources is guarded by a length check, so
  the index is in range wherever \<open>load\<close> is used.
\<close>

definition load :: "Uint8Array \<Rightarrow> nat \<Rightarrow> int" where
  "load a i = uint (a ! i)"

text \<open>
  \<^verbatim>\<open>a[i] = x\<close> on a typed array, for an integer \<open>x\<close> (for a Number \<open>v\<close> it is
  \<open>js_trunc v\<close>): the integer is reduced modulo 256, and a store outside the array is
  silently dropped.
\<close>

definition store :: "Uint8Array \<Rightarrow> nat \<Rightarrow> int \<Rightarrow> Uint8Array" where
  "store a i x = (if i < length a then a[i := word_of_int x] else a)"

text \<open>
  The operators \<^verbatim>\<open><<\<close>, \<^verbatim>\<open>>>\<close>, \<^verbatim>\<open>|\<close> and \<^verbatim>\<open>&\<close> on Numbers, for integer operands
  (for a Number \<open>v\<close> the operand is \<open>js_trunc v\<close>): the operands are converted to
  32-bit two's complement, the shift count is taken modulo 32, and the result is read
  back as a signed 32-bit integer.
\<close>

definition ToInt32 :: "int \<Rightarrow> 32 word" where
  "ToInt32 x = word_of_int x"

definition js_shl :: "int \<Rightarrow> nat \<Rightarrow> int" where
  "js_shl a n = sint (push_bit (n mod 32) (ToInt32 a))"

definition js_sar :: "int \<Rightarrow> nat \<Rightarrow> int" where
  "js_sar a n = sint (signed_drop_bit (n mod 32) (ToInt32 a))"

definition js_bitor :: "int \<Rightarrow> int \<Rightarrow> int" where
  "js_bitor a b = sint (ToInt32 a OR ToInt32 b)"

definition js_bitand :: "int \<Rightarrow> int \<Rightarrow> int" where
  "js_bitand a b = sint (ToInt32 a AND ToInt32 b)"

section \<open>uint.ts: fixed-width unsigned integers in two byte orders\<close>

text \<open>
  Every method takes the array it works on and returns the outcome (an error for a
  \<^verbatim>\<open>throw\<close>) together with the array as it is after the call.
\<close>

type_synonym 'a outcome = "(error + 'a) \<times> Uint8Array"

subsection \<open>class BigEndian\<close>

definition BigEndian_uint8 :: "Uint8Array \<Rightarrow> nat \<Rightarrow> int outcome" where
  "BigEndian_uint8 data offset =
     (if length data < offset + 1 then (Inl (TypeError ''Insufficient bytes''), data)
      else (Inr (load data offset), data))"

definition BigEndian_uint16 :: "Uint8Array \<Rightarrow> nat \<Rightarrow> int outcome" where
  "BigEndian_uint16 data offset =
     (if length data < offset + 2 then (Inl (TypeError ''Insufficient bytes''), data)
      else (Inr (js_bitor (js_shl (load data offset) 8) (load data (offset + 1))), data))"

definition BigEndian_uint32 :: "Uint8Array \<Rightarrow> nat \<Rightarrow> int outcome" where
  "BigEndian_uint32 data offset =
     (if length data < offset + 4 then (Inl (TypeError ''Insufficient bytes''), data)
      else (Inr (fold (\<lambda>i result. js_bitor result (js_shl (load data (offset + i)) (24 - i * 8)))
                   [0..<4] 0), data))"

definition BigEndian_uint64 :: "Uint8Array \<Rightarrow> nat \<Rightarrow> int outcome" where
  "BigEndian_uint64 data offset =
     (if length data < offset + 8 then (Inl (TypeError ''Insufficient bytes''), data)
      else (Inr (fold (\<lambda>i result. result OR push_bit (56 - i * 8) (load data (offset + i)))
                   [0..<8] 0), data))"

definition BigEndian_putUint8 :: "Uint8Array \<Rightarrow> number \<Rightarrow> nat \<Rightarrow> unit outcome" where
  "BigEndian_putUint8 target v offset =
     (if length target < offset + 1 then (Inl (TypeError ''Not enough space''), target)
      else if js_lt v (Finite 0) \<or> js_lt (Finite 255) v then (Inl (TypeError ''Invalid uint8 value''), target)
      else (Inr (), store target offset (js_trunc v)))"

definition BigEndian_putUint16 :: "Uint8Array \<Rightarrow> number \<Rightarrow> nat \<Rightarrow> unit outcome" where
  "BigEndian_putUint16 target v offset =
     (if length target < offset + 2 then (Inl (TypeError ''Not enough space''), target)
      else if js_lt v (Finite 0) \<or> js_lt (Finite 65535) v then (Inl (TypeError ''Invalid uint16 value''), target)
      else (Inr (), store (store target offset (js_sar (js_trunc v) 8)) (offset + 1) (js_bitand (js_trunc v) 255)))"

definition BigEndian_putUint32 :: "Uint8Array \<Rightarrow> number \<Rightarrow> nat \<Rightarrow> unit outcome" where
  "BigEndian_putUint32 target v offset =
     (if length target < offset + 4 then (Inl (TypeError ''Not enough space''), target)
      else if js_lt v (Finite 0) \<or> js_lt (Finite 4294967295) v then (Inl (TypeError ''Invalid uint32 value''), target)
      else (Inr (), fold (\<lambda>i t. store t (offset + i) (js_bitand (js_sar (js_trunc v) ((3 - i) * 8)) 255))
                      [0..<4] target))"

definition BigEndian_putUint64 :: "Uint8Array \<Rightarrow> int \<Rightarrow> nat \<Rightarrow> unit outcome" where
  "BigEndian_putUint64 target v offset =
     (if length target < offset + 8 then (Inl (TypeError ''Not enough space''), target)
      else if v < 0 \<or> v > 18446744073709551615 then (Inl (TypeError ''Invalid uint64 value''), target)
      else (Inr (), fold (\<lambda>i t. store t (offset + i) (drop_bit ((7 - i) * 8) v AND 255))
                      [0..<8] target))"

subsection \<open>class LittleEndian\<close>

definition LittleEndian_uint8 :: "Uint8Array \<Rightarrow> nat \<Rightarrow> int outcome" where
  "LittleEndian_uint8 data offset =
     (if length data < offset + 1 then (Inl (TypeError ''Insufficient bytes''), data)
      else (Inr (load data offset), data))"

definition LittleEndian_uint16 :: "Uint8Array \<Rightarrow> nat \<Rightarrow> int outcome" where
  "LittleEndian_uint16 data offset =
     (if length data < offset + 2 then (Inl (TypeError ''Insufficient bytes''), data)
      else (Inr (js_bitor (load data offset) (js_shl (load data (offset + 1)) 8)), data))"

definition LittleEndian_uint32 :: "Uint8Array \<Rightarrow> nat \<Rightarrow> int outcome" where
  "LittleEndian_uint32 data offset =
     (if length data < offset + 4 then (Inl (TypeError ''Insufficient bytes''), data)
      else (Inr (fold (\<lambda>i result. js_bitor result (js_shl (load data (offset + i)) (i * 8)))
                   [0..<4] 0), data))"

definition LittleEndian_uint64 :: "Uint8Array \<Rightarrow> nat \<Rightarrow> int outcome" where
  "LittleEndian_uint64 data offset =
     (if length data < offset + 8 then (Inl (TypeError ''Insufficient bytes''), data)
      else (Inr (fold (\<lambda>i result. result OR push_bit (i * 8) (load data (offset + i)))
                   [0..<8] 0), data))"

definition LittleEndian_putUint8 :: "Uint8Array \<Rightarrow> number \<Rightarrow> nat \<Rightarrow> unit outcome" where
  "LittleEndian_putUint8 target v offset =
     (if length target < 1 + offset then (Inl (TypeError ''Insufficient space''), target)
      else if js_lt v (Finite 0) \<or> js_lt (Finite 255) v then (Inl (TypeError ''Invalid uint8 value''), target)
      else (Inr (), store target offset (js_trunc v)))"

definition LittleEndian_putUint16 :: "Uint8Array \<Rightarrow> number \<Rightarrow> nat \<Rightarrow> unit outcome" where
  "LittleEndian_putUint16 target v offset =
     (if length target < 2 + offset then (Inl (TypeError ''Insufficient space''), target)
      else if js_lt v (Finite 0) \<or> js_lt (Finite 65535) v then (Inl (TypeError ''Invalid uint16 value''), target)
      else (Inr (), store (store target offset (js_bitand (js_trunc v) 255)) (offset + 1) (js_sar (js_trunc v) 8)))"

definition LittleEndian_putUint32 :: "Uint8Array \<Rightarrow> number \<Rightarrow> nat \<Rightarrow> unit outcome" where
  "LittleEndian_putUint32 target v offset =
     (if length target < 4 + offset then (Inl (TypeError ''Insufficient space''), target)
      else if js_lt v (Finite 0) \<or> js_lt (Finite 4294967295) v then (Inl (TypeError ''Invalid uint32 value''), target)
      else (Inr (), fold (\<lambda>i t. store t (offset + i) (js_bitand (js_sar (js_trunc v) (i * 8)) 255))
                      [0..<4] target))"

definition LittleEndian_putUint64 :: "Uint8Array \<Rightarrow> int \<Rightarrow> nat \<Rightarrow> unit outcome" where
  "LittleEndian_putUint64 target v offset =
     (if length target < 8 + offset then (Inl (TypeError ''Insufficient space''), target)
      else if v < 0 \<or> v > 18446744073709551615 then (Inl (TypeError ''Invalid uint64 value''), target)
      else (Inr (), fold (\<lambda>i t. store t (offset + i) (drop_bit (i * 8) v AND 255))
                      [0..<8] target))"

subsection \<open>interface ByteOrder and its two instances\<close>

record ByteOrder =
  uint8 :: "Uint8Array \<Rightarrow> nat \<Rightarrow> int outcome"
  uint16 :: "Uint8Array \<Rightarrow> nat \<Rightarrow> int outcome"
  uint32 :: "Uint8Array \<Rightarrow> nat \<Rightarrow> int outcome"
  uint64 :: "Uint8Array \<Rightarrow> nat \<Rightarrow> int outcome"
  putUint8 :: "Uint8Array \<Rightarrow> number \<Rightarrow> nat \<Rightarrow> unit outcome"
  putUint16 :: "Uint8Array \<Rightarrow> number \<Rightarrow> nat \<Rightarrow> unit outcome"
  putUint32 :: "Uint8Array \<Rightarrow> number \<Rightarrow> nat \<Rightarrow> unit outcome"
  putUint64 :: "Uint8Array \<Rightarrow> int \<Rightarrow> nat \<Rightarrow> unit outcome"

definition bigEndian :: ByteOrder where
  "bigEndian = \<lparr>uint8 = BigEndian_uint8, uint16 = BigEndian_uint16,
                uint32 = BigEndian_uint32, uint64 = BigEndian_uint64,
                putUint8 = BigEndian_putUint8, putUint16 = BigEndian_putUint16,
                putUint32 = BigEndian_putUint32, putUint64 = BigEndian_putUint64\<rparr>"

definition littleEndian :: ByteOrder where
  "littleEndian = \<lparr>uint8 = LittleEndian_uint8, uint16 = LittleEndian_uint16,
                   uint32 = LittleEndian_uint32, uint64 = LittleEndian_uint64,
                   putUint8 = LittleEndian_putUint8, putUint16 = LittleEndian_putUint16,
                   putUint32 = LittleEndian_putUint32, putUint64 = LittleEndian_putUint64\<rparr>"

text \<open>
  The four widths, to state a property once for all of them. \<open>put_uint\<close> is a
  put-uint called with an integer value: a Number holding that integer for the widths 8,
  16 and 32, a BigInt for the width 64.
\<close>

datatype width = W8 | W16 | W32 | W64

fun nbytes :: "width \<Rightarrow> nat" where
  "nbytes W8 = 1" | "nbytes W16 = 2" | "nbytes W32 = 4" | "nbytes W64 = 8"

fun read_uint :: "width \<Rightarrow> ByteOrder \<Rightarrow> Uint8Array \<Rightarrow> nat \<Rightarrow> int outcome" where
  "read_uint W8 bo = uint8 bo"
| "read_uint W16 bo = uint16 bo"
| "read_uint W32 bo = uint32 bo"
| "read_uint W64 bo = uint64 bo"

fun put_uint :: "width \<Rightarrow> ByteOrder \<Rightarrow> Uint8Array \<Rightarrow> int \<Rightarrow> nat \<Rightarrow> unit outcome" where
  "put_uint W8 bo target v offset = putUint8 bo target (Finite (of_int v)) offset"
| "put_uint W16 bo target v offset = putUint16 bo target (Finite (of_int v)) offset"
| "put_uint W32 bo target v offset = putUint32 bo target (Finite (of_int v)) offset"
| "put_uint W64 bo target v offset = putUint64 bo target v offset"

section \<open>big.ts: arbitrary-precision integers as bytes\<close>

text \<open>
  The loop \<^verbatim>\<open>while (value > 2n ** BigInt(byteLength * 8) - 1n) byteLength++\<close>
  of \<open>bigIntBytes\<close>, started by the caller at \<open>byteLength = 1\<close>.
\<close>

function byteLength_loop :: "int \<Rightarrow> nat \<Rightarrow> nat" where
  "byteLength_loop v byteLength =
     (if v > 2 ^ (byteLength * 8) - 1 then byteLength_loop v (byteLength + 1) else byteLength)"
  by pat_completeness auto
termination
proof (relation "measure (\<lambda>(v, byteLength). nat v - byteLength)")
  show "wf (measure (\<lambda>(v, byteLength). nat v - byteLength))"
    by simp
next
  fix v :: int and byteLength :: nat
  assume big: "2 ^ (byteLength * 8) - 1 < v"
  have "byteLength < 2 ^ byteLength"
    by (rule less_exp)
  also have "\<dots> \<le> (2::nat) ^ (byteLength * 8)"
    by (rule power_increasing) simp_all
  finally have "int byteLength < int (2 ^ (byteLength * 8))"
    by (simp only: of_nat_less_iff)
  also have "\<dots> = 2 ^ (byteLength * 8)"
    by simp
  finally have "int byteLength < v"
    using big by linarith
  then show "((v, byteLength + 1), (v, byteLength)) \<in> measure (\<lambda>(v, byteLength). nat v - byteLength)"
    by simp
qed

declare byteLength_loop.simps [simp del]

definition bigIntBytes :: "int \<Rightarrow> Uint8Array" where
  "bigIntBytes value0 =
     (let v = (if value0 < 0 then value0 * - 1 else value0);
          byteLength = byteLength_loop v 1;
          encoded = replicate byteLength 0
      in fold (\<lambda>i enc. store enc i (drop_bit ((length enc - i - 1) * 8) v AND 255))
           [0..<length encoded] encoded)"

definition bigIntFromBytes :: "Uint8Array \<Rightarrow> error + int" where
  "bigIntFromBytes bytes =
     (if length bytes < 1 then Inl (TypeError ''Empty Uint8Array'')
      else Inr (fold (\<lambda>i decoded. decoded + push_bit ((length bytes - 1 - i) * 8) (load bytes i))
                  [0..<length bytes] 0))"

text \<open>
  Two definitions for stating and proving properties of the two functions above, not part
  of the source: the big-endian value of a byte sequence as the sum
  \<open>\<Sum> bytes[i] * 256^(n-1-i)\<close>, and the \<open>n\<close> big-endian bytes of an integer.
\<close>

definition be_sum :: "Uint8Array \<Rightarrow> int" where
  "be_sum bs = (\<Sum>i<length bs. uint (bs ! i) * 256 ^ (length bs - 1 - i))"

definition be_bytes :: "nat \<Rightarrow> int \<Rightarrow> Uint8Array" where
  "be_bytes n v = map (\<lambda>i. word_of_int (drop_bit ((n - i - 1) * 8) v AND 255)) [0..<n]"

section \<open>bytes.ts: the growable buffer\<close>

text \<open>
  \<^verbatim>\<open>target.set(source, offset)\<close> throws a \<^verbatim>\<open>RangeError\<close> when the source does not fit;
  \<^verbatim>\<open>a.subarray(begin, end)\<close> and \<^verbatim>\<open>a.slice(begin, end)\<close> clamp their bounds to the array.
\<close>

definition set_bytes :: "Uint8Array \<Rightarrow> Uint8Array \<Rightarrow> nat \<Rightarrow> error + Uint8Array" where
  "set_bytes target source offset =
     (if offset + length source > length target then Inl (RangeError ''offset is out of bounds'')
      else Inr (take offset target @ source @ drop (offset + length source) target))"

definition subarray :: "Uint8Array \<Rightarrow> nat \<Rightarrow> nat \<Rightarrow> Uint8Array" where
  "subarray a start stop = take (stop - start) (drop start a)"

definition slice :: "Uint8Array \<Rightarrow> nat \<Rightarrow> nat \<Rightarrow> Uint8Array" where
  "slice a start stop = take (stop - start) (drop start a)"

text \<open>
  The fields \<^verbatim>\<open>value\<close>, \<^verbatim>\<open>capacity\<close> and \<^verbatim>\<open>length\<close> of class \<^verbatim>\<open>DynamicBuffer\<close>.
\<close>

record DynamicBuffer =
  value' :: Uint8Array
  capacity :: nat
  length' :: nat

definition DynamicBuffer_new :: "nat \<Rightarrow> DynamicBuffer" where
  "DynamicBuffer_new cap = \<lparr>value' = replicate cap 0, capacity = cap, length' = 0\<rparr>"

text \<open>
  The doubling loop of \<^verbatim>\<open>write\<close>, on \<^verbatim>\<open>this.capacity\<close>; \<open>need\<close> is
  \<^verbatim>\<open>this.length + bytes.byteLength\<close>, which the loop does not change.
\<close>

function grow :: "nat \<Rightarrow> nat \<Rightarrow> nat" where
  "grow need cap =
     (if need > cap then grow need (if cap = 0 then 1 else cap * 2) else cap)"
  by pat_completeness auto
termination
  by (relation "measure (\<lambda>(need, cap). need - cap)") auto

declare grow.simps [simp del]

text \<open>
  Each mutating method returns its outcome and the object as it is after the call, also
  when a \<^verbatim>\<open>set\<close> throws after \<^verbatim>\<open>this.capacity\<close> has been assigned.
\<close>

definition write' :: "DynamicBuffer \<Rightarrow> Uint8Array \<Rightarrow> (error + unit) \<times> DynamicBuffer" where
  "write' b bytes =
     (if length' b + length bytes \<le> capacity b then
        (case set_bytes (value' b) bytes (length' b) of
           Inl e \<Rightarrow> (Inl e, b)
         | Inr v \<Rightarrow> (Inr (), b\<lparr>value' := v, length' := length' b + length bytes\<rparr>))
      else
        (let b1 = b\<lparr>capacity := grow (length' b + length bytes) (capacity b)\<rparr>;
             newValue = replicate (capacity b1) 0
         in case set_bytes newValue (subarray (value' b1) 0 (length' b1)) 0 of
              Inl e \<Rightarrow> (Inl e, b1)
            | Inr newValue1 \<Rightarrow>
                (case set_bytes newValue1 bytes (length' b1) of
                   Inl e \<Rightarrow> (Inl e, b1)
                 | Inr newValue2 \<Rightarrow>
                     (Inr (), b1\<lparr>value' := newValue2, length' := length' b1 + length bytes\<rparr>))))"

definition writeByte :: "DynamicBuffer \<Rightarrow> number \<Rightarrow> (error + unit) \<times> DynamicBuffer" where
  "writeByte b byte =
     (if length' b + 1 \<le> capacity b then
        (Inr (), b\<lparr>value' := store (value' b) (length' b) (js_trunc byte), length' := length' b + 1\<rparr>)
      else
        (let b1 = b\<lparr>capacity := (if capacity b = 0 then 1 else capacity b * 2)\<rparr>;
             newValue = replicate (capacity b1) 0
         in case set_bytes newValue (subarray (value' b1) 0 (length' b1)) 0 of
              Inl e \<Rightarrow> (Inl e, b1)
            | Inr newValue1 \<Rightarrow>
                (Inr (), b1\<lparr>value' := store newValue1 (length' b1) (js_trunc byte),
                              length' := length' b1 + 1\<rparr>)))"


definition bytes :: "DynamicBuffer \<Rightarrow> Uint8Array" where
  "bytes b = slice (value' b) 0 (length' b)"

definition clear :: "DynamicBuffer \<Rightarrow> DynamicBuffer" where
  "clear b = b\<lparr>length' := 0\<rparr>"

text \<open>A sequence of calls on one buffer; it stops at the first call that throws.\<close>

datatype call = Write Uint8Array | WriteByte number


fun run :: "DynamicBuffer \<Rightarrow> call list \<Rightarrow> (error + unit) \<times> DynamicBuffer" where
  "run b [] = (Inr (), b)"
| "run b (Write bs # cs) =
     (case write' b bs of (Inl e, b') \<Rightarrow> (Inl e, b') | (Inr u, b') \<Rightarrow> run b' cs)"
| "run b (WriteByte byte # cs) =
     (case writeByte b byte of (Inl e, b') \<Rightarrow> (Inl e, b') | (Inr u, b') \<Rightarrow> run b' cs)"

text \<open>
  The representation invariant of the class: \<^verbatim>\<open>capacity\<close> is the allocated size of the
  backing store, and the logical length does not exceed it.
\<close>

definition buffer_inv :: "DynamicBuffer \<Rightarrow> bool" where
  "buffer_inv b \<longleftrightarrow> length (value' b) = capacity b \<and> length' b \<le> capacity b"

text \<open>The states a buffer can be in: those that the constructor and the methods produce.\<close>

inductive reachable :: "DynamicBuffer \<Rightarrow> bool" where
  constructed: "reachable (DynamicBuffer_new cap)"
| written: "reachable b \<Longrightarrow> reachable (snd (write' b bs))"
| byte_written: "reachable b \<Longrightarrow> reachable (snd (writeByte b byte))"
| cleared: "reachable b \<Longrightarrow> reachable (clear b)"

section \<open>Properties of the fixed-width codec\<close>

lemmas BigEndian_defs =
  BigEndian_uint8_def BigEndian_uint16_def BigEndian_uint32_def BigEndian_uint64_def
  BigEndian_putUint8_def BigEndian_putUint16_def BigEndian_putUint32_def BigEndian_putUint64_def

lemmas LittleEndian_defs =
  LittleEndian_uint8_def LittleEndian_uint16_def LittleEndian_uint32_def LittleEndian_uint64_def
  LittleEndian_putUint8_def LittleEndian_putUint16_def LittleEndian_putUint32_def
  LittleEndian_putUint64_def

lemmas js_defs = js_shl_def js_sar_def js_bitor_def js_bitand_def ToInt32_def

lemma upt_4: "[0..<4] = [0, 1, 2, 3]"
  by (simp add: upt_rec)

lemma upt_8: "[0..<8] = [0, 1, 2, 3, 4, 5, 6, 7]"
  by (simp add: upt_rec)

text \<open>
  A loop that stores \<open>f i\<close> at \<open>k + i\<close> for \<open>i < n\<close> replaces exactly the span
  \<open>[k, k + n)\<close> of an array that is long enough.
\<close>

lemma fold_store:
  "k + n \<le> length t \<Longrightarrow>
   fold (\<lambda>i t. store t (k + i) (f i)) [0..<n] t =
     take k t @ map (\<lambda>i. word_of_int (f i)) [0..<n] @ drop (k + n) t"
proof (induction n)
  case 0
  then show ?case by simp
next
  case (Suc n)
  then have kn: "k + n < length t" by simp
  have "drop (k + n) t = t ! (k + n) # drop (k + Suc n) t"
    using kn by (simp add: Cons_nth_drop_Suc)
  with Suc kn show ?case
    by (simp add: store_def list_update_append)
qed

lemma store_store:
  assumes "k + 2 \<le> length t"
  shows "store (store t k a) (k + 1) b =
         take k t @ [word_of_int a, word_of_int b] @ drop (k + 2) t"
proof -
  have "fold (\<lambda>i t. store t (k + i) (if i = 0 then a else b)) [0..<2] t =
        store (store t k a) (k + 1) b"
    by (simp add: upt_rec)
  with fold_store [OF assms, of "\<lambda>i. if i = 0 then a else b"] show ?thesis
    by (simp add: upt_rec)
qed

lemma store_one:
  assumes "k + 1 \<le> length t"
  shows "store t k a = take k t @ [word_of_int a] @ drop (k + 1) t"
  using assms by (simp add: store_def upd_conv_take_nth_drop)

text \<open>
  The 32-bit operators on integers: each one wraps its result to the signed 32-bit range.
\<close>

lemma js_bitor_int: "js_bitor a b = signed_take_bit 31 (a OR b)"
  unfolding js_bitor_def ToInt32_def
  by (rule bit_eqI) (auto simp: bit_simps)

lemma js_bitand_int: "js_bitand a b = signed_take_bit 31 (a AND b)"
  unfolding js_bitand_def ToInt32_def
  by (rule bit_eqI) (auto simp: bit_simps)

lemma js_shl_int: "n < 32 \<Longrightarrow> js_shl a n = signed_take_bit 31 (push_bit n a)"
  unfolding js_shl_def ToInt32_def
  by (rule bit_eqI) (auto simp: bit_simps)

lemma js_sar_int: "n < 32 \<Longrightarrow> js_sar a n = drop_bit n (signed_take_bit 31 a)"
  unfolding js_sar_def ToInt32_def
  by (cases "n = 0"; rule bit_eqI) (auto simp: bit_simps)

lemma uint_byte_of_int: "uint (word_of_int y :: byte) = take_bit 8 y"
  by (simp add: uint_word_of_int take_bit_eq_mod)

lemma load_written:
  "i < length bs \<Longrightarrow> k \<le> length t \<Longrightarrow> load (take k t @ bs @ rest) (k + i) = uint (bs ! i)"
  by (simp add: load_def nth_append)

text \<open>
  Reading back what a put-uint loop has stored: the bytes are the low 8 bits of what was
  stored, and the shifts and ors of the read put them back in place.
\<close>

lemma and_255: "x AND 255 = take_bit 8 x" for x :: int
  using take_bit_eq_mask [of 8 x] by (simp add: mask_eq_exp_minus_1)

lemma read32_be:
  "fold (\<lambda>i result. js_bitor result (js_shl (take_bit 8 (js_bitand (js_sar v ((3 - i) * 8)) 255)) (24 - i * 8))) [0..<4] 0
   = signed_take_bit 31 v"
  unfolding upt_4
  apply (simp add: js_bitor_int js_bitand_int js_shl_int js_sar_int and_255)
  apply (rule bit_eqI)
  apply (auto simp: bit_simps)
  subgoal for n by (cases "16 \<le> n") auto
  subgoal for n by (cases "24 \<le> min 31 n"; cases "16 \<le> min 31 n") auto
  done

lemma read32_le:
  "fold (\<lambda>i result. js_bitor result (js_shl (take_bit 8 (js_bitand (js_sar v (i * 8)) 255)) (i * 8))) [0..<4] 0
   = signed_take_bit 31 v"
  unfolding upt_4
  apply (simp add: js_bitor_int js_bitand_int js_shl_int js_sar_int and_255)
  apply (rule bit_eqI)
  apply (auto simp: bit_simps)
  subgoal for n by (cases "24 \<le> min 31 n") auto
  done

lemma read16_be:
  "js_bitor (js_shl (take_bit 8 (js_sar v 8)) 8) (take_bit 8 (js_bitand v 255)) = take_bit 16 v"
  apply (simp add: js_bitor_int js_bitand_int js_shl_int js_sar_int and_255)
  apply (rule bit_eqI)
  apply (auto simp: bit_simps)
  done

lemma read16_le:
  "js_bitor (take_bit 8 (js_bitand v 255)) (js_shl (take_bit 8 (js_sar v 8)) 8) = take_bit 16 v"
  apply (simp add: js_bitor_int js_bitand_int js_shl_int js_sar_int and_255)
  apply (rule bit_eqI)
  apply (auto simp: bit_simps)
  done

lemma split8: "take_bit (a + 8) x = take_bit a x OR push_bit a (take_bit 8 (drop_bit a x))" for x :: int
  by (rule bit_eqI) (auto simp: bit_simps)

lemma take_bit_64_bytes:
  "take_bit 64 v =
     take_bit 8 v OR push_bit 8 (take_bit 8 (drop_bit 8 v)) OR
     push_bit 16 (take_bit 8 (drop_bit 16 v)) OR push_bit 24 (take_bit 8 (drop_bit 24 v)) OR
     push_bit 32 (take_bit 8 (drop_bit 32 v)) OR push_bit 40 (take_bit 8 (drop_bit 40 v)) OR
     push_bit 48 (take_bit 8 (drop_bit 48 v)) OR push_bit 56 (take_bit 8 (drop_bit 56 v))"
  for v :: int
  using split8 [of 56 v] split8 [of 48 v] split8 [of 40 v] split8 [of 32 v]
    split8 [of 24 v] split8 [of 16 v] split8 [of 8 v]
  by (simp add: ac_simps)

lemma byte_mask: "take_bit 8 (y AND 255) = take_bit 8 y" for y :: int
  by (simp add: and_255)

lemma read64_be:
  "fold (\<lambda>i result. result OR push_bit (56 - i * 8) (take_bit 8 (drop_bit ((7 - i) * 8) v AND 255))) [0..<8] 0
   = take_bit 64 v"
  for v :: int
proof -
  have "fold (\<lambda>i result. result OR push_bit (56 - i * 8) (take_bit 8 (drop_bit ((7 - i) * 8) v AND 255))) [0..<8] 0
      = fold (\<lambda>i result. result OR push_bit (56 - i * 8) (take_bit 8 (drop_bit ((7 - i) * 8) v))) [0..<8] 0"
    by (simp only: byte_mask)
  also have "\<dots> = take_bit 64 v"
    unfolding upt_8 take_bit_64_bytes by (simp add: ac_simps)
  finally show ?thesis .
qed

lemma read64_le:
  "fold (\<lambda>i result. result OR push_bit (i * 8) (take_bit 8 (drop_bit (i * 8) v AND 255))) [0..<8] 0
   = take_bit 64 v"
  for v :: int
proof -
  have "fold (\<lambda>i result. result OR push_bit (i * 8) (take_bit 8 (drop_bit (i * 8) v AND 255))) [0..<8] 0
      = fold (\<lambda>i result. result OR push_bit (i * 8) (take_bit 8 (drop_bit (i * 8) v))) [0..<8] 0"
    by (simp only: byte_mask)
  also have "\<dots> = take_bit 64 v"
    unfolding upt_8 take_bit_64_bytes by (simp add: ac_simps)
  finally show ?thesis .
qed

lemma read_after_store:
  assumes "k + n \<le> length t"
  shows "fold (\<lambda>i r. G i r (load (fold (\<lambda>i t. store t (k + i) (f i)) [0..<n] t) (k + i))) [0..<n] a
       = fold (\<lambda>i r. G i r (take_bit 8 (f i))) [0..<n] a"
proof (rule fold_cong)
  fix i
  assume "i \<in> set [0..<n]"
  then have "i < n" by simp
  with assms have "load (fold (\<lambda>i t. store t (k + i) (f i)) [0..<n] t) (k + i) = take_bit 8 (f i)"
    by (simp add: fold_store load_def nth_append uint_byte_of_int)
  then show "(\<lambda>r. G i r (load (fold (\<lambda>i t. store t (k + i) (f i)) [0..<n] t) (k + i)))
           = (\<lambda>r. G i r (take_bit 8 (f i)))"
    by simp
qed simp_all

lemma length_store: "length (store t i x) = length t"
  by (simp add: store_def)

lemma length_fold_store: "length (fold (\<lambda>i t. store t (k + i) (f i)) xs t) = length t"
  by (induction xs arbitrary: t) (simp_all add: length_store)

lemma signed_32:
  fixes v :: int
  assumes "0 \<le> v" and "v \<le> 4294967295"
  shows "signed_take_bit 31 v = (if v < 2147483648 then v else v - 4294967296)"
proof (cases "v < 2147483648")
  case True
  with assms(1) show ?thesis by (simp add: signed_take_bit_int_eq_self)
next
  case False
  have "(v - 2147483648 + 4294967296) mod 4294967296 = (v - 2147483648) mod 4294967296"
    by (rule mod_add_self2)
  moreover have "v - 2147483648 + 4294967296 = v + 2147483648"
    by simp
  ultimately have m: "(v + 2147483648) mod 4294967296 = (v - 2147483648) mod 4294967296"
    by (simp only:)
  have "signed_take_bit 31 v = take_bit 32 (v + 2147483648) - 2147483648"
    by (simp add: signed_take_bit_eq_take_bit_shift)
  also have "take_bit 32 (v + 2147483648) = take_bit 32 (v - 2147483648)"
    using m by (simp only: take_bit_eq_mod) simp
  also have "\<dots> = v - 2147483648"
    using False assms(2) by (simp add: take_bit_int_eq_self)
  finally show ?thesis using False by simp
qed

text \<open>A Number that holds an integer: its comparisons and its truncation are the integer's.\<close>

lemma js_trunc_of_int [simp]: "js_trunc (Finite (of_int v)) = v"
  by simp

lemma js_lt_of_int_0 [simp]: "js_lt (Finite (of_int v)) (Finite 0) \<longleftrightarrow> v < 0"
  by simp

lemma js_lt_numeral_of_int [simp]:
  "js_lt (Finite (numeral n)) (Finite (of_int v)) \<longleftrightarrow> numeral n < v"
proof -
  have "(numeral n :: rat) = of_int (numeral n)" by simp
  then show ?thesis by (simp only: js_lt.simps of_int_less_iff)
qed

lemma roundtrip8:
  assumes "bo = bigEndian \<or> bo = littleEndian" and "0 \<le> v" and "v \<le> 255" and "k + 1 \<le> length t"
  shows "fst (uint8 bo (snd (putUint8 bo t (Finite (of_int v)) k)) k) = Inr v"
proof -
  have "take_bit 8 v = v" using assms(2,3) by (simp add: take_bit_int_eq_self)
  with assms show ?thesis
    by (auto simp: bigEndian_def littleEndian_def BigEndian_uint8_def BigEndian_putUint8_def
        LittleEndian_uint8_def LittleEndian_putUint8_def store_def load_def uint_byte_of_int)
qed

lemma roundtrip16:
  assumes "bo = bigEndian \<or> bo = littleEndian" and "0 \<le> v" and "v \<le> 65535" and "k + 2 \<le> length t"
  shows "fst (uint16 bo (snd (putUint16 bo t (Finite (of_int v)) k)) k) = Inr v"
proof -
  have v: "take_bit 16 v = v" using assms(2,3) by (simp add: take_bit_int_eq_self)
  define t' where "t' a b = store (store t k a) (k + 1) b" for a b
  have len: "length (t' a b) = length t" for a b
    by (simp add: t'_def length_store)
  have l0: "load (t' a b) k = take_bit 8 a" for a b
    using assms(4) by (simp add: t'_def store_def load_def uint_byte_of_int)
  have l1: "load (t' a b) (k + 1) = take_bit 8 b" for a b
    using assms(4) by (simp add: t'_def store_def load_def uint_byte_of_int)
  have be: "snd (BigEndian_putUint16 t (Finite (of_int v)) k) = t' (js_sar v 8) (js_bitand v 255)"
    using assms(2-4) by (simp add: BigEndian_putUint16_def t'_def)
  have le: "snd (LittleEndian_putUint16 t (Finite (of_int v)) k) = t' (js_bitand v 255) (js_sar v 8)"
    using assms(2-4) by (simp add: LittleEndian_putUint16_def t'_def)
  have "fst (BigEndian_uint16 (snd (BigEndian_putUint16 t (Finite (of_int v)) k)) k) = Inr v"
    unfolding be BigEndian_uint16_def using assms(4)
    by (simp only: len l0 l1 read16_be v) simp
  moreover have "fst (LittleEndian_uint16 (snd (LittleEndian_putUint16 t (Finite (of_int v)) k)) k) = Inr v"
    unfolding le LittleEndian_uint16_def using assms(4)
    by (simp only: len l0 l1 read16_le v) simp
  ultimately show ?thesis
    using assms(1) by (auto simp: bigEndian_def littleEndian_def)
qed

lemma roundtrip32:
  assumes "bo = bigEndian \<or> bo = littleEndian" and "0 \<le> v" and "v \<le> 4294967295" and "k + 4 \<le> length t"
  shows "fst (uint32 bo (snd (putUint32 bo t (Finite (of_int v)) k)) k) =
         Inr (if v < 2147483648 then v else v - 4294967296)"
proof -
  note v = signed_32 [OF assms(2,3)]
  have be: "snd (BigEndian_putUint32 t (Finite (of_int v)) k) =
      fold (\<lambda>i t. store t (k + i) (js_bitand (js_sar v ((3 - i) * 8)) 255)) [0..<4] t"
    using assms(2-4) by (simp add: BigEndian_putUint32_def)
  have le: "snd (LittleEndian_putUint32 t (Finite (of_int v)) k) =
      fold (\<lambda>i t. store t (k + i) (js_bitand (js_sar v (i * 8)) 255)) [0..<4] t"
    using assms(2-4) by (simp add: LittleEndian_putUint32_def)
  have "fst (BigEndian_uint32 (snd (BigEndian_putUint32 t (Finite (of_int v)) k)) k) = Inr (signed_take_bit 31 v)"
    unfolding be BigEndian_uint32_def length_fold_store
      read_after_store [where G = "\<lambda>i r x. js_bitor r (js_shl x (24 - i * 8))", OF assms(4)] read32_be
    using assms(4) by simp
  moreover have "fst (LittleEndian_uint32 (snd (LittleEndian_putUint32 t (Finite (of_int v)) k)) k) = Inr (signed_take_bit 31 v)"
    unfolding le LittleEndian_uint32_def length_fold_store
      read_after_store [where G = "\<lambda>i r x. js_bitor r (js_shl x (i * 8))", OF assms(4)] read32_le
    using assms(4) by simp
  ultimately show ?thesis
    using assms(1) unfolding v by (auto simp: bigEndian_def littleEndian_def)
qed

lemma roundtrip64:
  assumes "bo = bigEndian \<or> bo = littleEndian" and "0 \<le> v" and "v \<le> 18446744073709551615" and "k + 8 \<le> length t"
  shows "fst (uint64 bo (snd (putUint64 bo t v k)) k) = Inr v"
proof -
  have v: "take_bit 64 v = v" using assms(2,3) by (simp add: take_bit_int_eq_self)
  have be: "snd (BigEndian_putUint64 t v k) =
      fold (\<lambda>i t. store t (k + i) (drop_bit ((7 - i) * 8) v AND 255)) [0..<8] t"
    using assms(2-4) by (simp add: BigEndian_putUint64_def)
  have le: "snd (LittleEndian_putUint64 t v k) =
      fold (\<lambda>i t. store t (k + i) (drop_bit (i * 8) v AND 255)) [0..<8] t"
    using assms(2-4) by (simp add: LittleEndian_putUint64_def)
  have "fst (BigEndian_uint64 (snd (BigEndian_putUint64 t v k)) k) = Inr (take_bit 64 v)"
    unfolding be BigEndian_uint64_def length_fold_store
      read_after_store [where G = "\<lambda>i r x. r OR push_bit (56 - i * 8) x", OF assms(4)] read64_be
    using assms(4) by simp
  moreover have "fst (LittleEndian_uint64 (snd (LittleEndian_putUint64 t v k)) k) = Inr (take_bit 64 v)"
    unfolding le LittleEndian_uint64_def length_fold_store
      read_after_store [where G = "\<lambda>i r x. r OR push_bit (i * 8) x", OF assms(4)] read64_le
    using assms(4) by simp
  ultimately show ?thesis
    using assms(1) unfolding v by (auto simp: bigEndian_def littleEndian_def)
qed

text \<open>
  What a read-uint returns after a successful put-uint at the same offset, for any target:
  the value written, except that \<open>uint32\<close> returns \<open>v - 2^32\<close> for \<open>v \<ge> 2^31\<close>.
\<close>

lemma read_after_put:
  assumes "bo = bigEndian \<or> bo = littleEndian" and "0 \<le> v" and "v \<le> 2 ^ (8 * nbytes w) - 1"
    and "k + nbytes w \<le> length t"
  shows "fst (read_uint w bo (snd (put_uint w bo t v k)) k) =
         Inr (if w = W32 \<and> 2147483648 \<le> v then v - 4294967296 else v)"
proof (cases w)
  case W8
  with assms roundtrip8 [of bo v k t] show ?thesis by simp
next
  case W16
  with assms roundtrip16 [of bo v k t] show ?thesis by simp
next
  case W32
  with assms roundtrip32 [of bo v k t] show ?thesis by simp
next
  case W64
  with assms roundtrip64 [of bo v k t] show ?thesis by simp
qed


text \<open>
  Claim C1, at the input where the code departs from it. The claim is that a value
  written by put-uint is read back unchanged for every width, byte order and value in
  range. With the 32-bit signed operators of the host, \<open>uint32\<close> of either byte order
  returns a negative number once the top bit of the value is set: writing
  \<open>4294967295\<close> (or \<open>2147483648\<close>) into four zero bytes and reading it back gives
  \<open>-1\<close> (or \<open>-2147483648\<close>).
\<close>

theorem uint32_roundtrip_high_bit:
  "fst (read_uint W32 bigEndian
          (snd (put_uint W32 bigEndian [0, 0, 0, 0] 4294967295 0)) 0) = Inr (- 1) \<and>
   fst (read_uint W32 littleEndian
          (snd (put_uint W32 littleEndian [0, 0, 0, 0] 2147483648 0)) 0) = Inr (- 2147483648)"
  by (simp add: bigEndian_def littleEndian_def BigEndian_uint32_def BigEndian_putUint32_def
      LittleEndian_uint32_def LittleEndian_putUint32_def store_def load_def js_defs upt_4)

text \<open>
  On integer values every put-uint is rejected, with its target as it was, when the value
  is outside \<open>[0, 2^w - 1]\<close> or the target is too short, and it fails in no other case.
\<close>

lemma put_uint_integer_rejected_unchanged:
  assumes "bo = bigEndian \<or> bo = littleEndian"
    and "v < 0 \<or> v > 2 ^ (8 * nbytes w) - 1 \<or> length target < k + nbytes w"
  shows "isl (fst (put_uint w bo target v k)) \<and> snd (put_uint w bo target v k) = target"
  using assms
  by (cases w)
    (auto simp: bigEndian_def littleEndian_def BigEndian_defs LittleEndian_defs
      split: if_splits)

lemma put_uint_integer_fails_iff:
  assumes "bo = bigEndian \<or> bo = littleEndian"
  shows "isl (fst (put_uint w bo target v k)) \<longleftrightarrow>
           length target < k + nbytes w \<or> v < 0 \<or> v > 2 ^ (8 * nbytes w) - 1"
  using assms
  by (cases w)
    (auto simp: bigEndian_def littleEndian_def BigEndian_defs LittleEndian_defs
      split: if_splits)

text \<open>
  Every read-uint fails exactly when the array is shorter than \<open>k + w/8\<close>, and returns
  the array as it was.
\<close>

lemma read_uint_fails_iff:
  assumes "bo = bigEndian \<or> bo = littleEndian"
  shows "(isl (fst (read_uint w bo data k)) \<longleftrightarrow> length data < k + nbytes w) \<and>
         snd (read_uint w bo data k) = data"
  using assms
  by (cases w)
    (auto simp: bigEndian_def littleEndian_def BigEndian_defs LittleEndian_defs
      split: if_splits)

text \<open>
  On Numbers, the range guard \<^verbatim>\<open>value < 0 || value > m\<close> of \<open>putUint8\<close>,
  \<open>putUint16\<close> and \<open>putUint32\<close> fires on the infinities and on the finite numbers
  outside \<open>[0, m]\<close>, fractions included, but not on \<^verbatim>\<open>NaN\<close>. A put-uint fails exactly
  when the target is too short or the guard fires, and a failed put-uint leaves its target
  as it was.
\<close>

lemma range_guard_iff:
  "js_lt v (Finite 0) \<or> js_lt (Finite m) v \<longleftrightarrow>
     v \<noteq> NaN \<and> (\<forall>q. v = Finite q \<longrightarrow> q < 0 \<or> m < q)"
  by (cases v) auto

lemma put_number_fails_iff:
  assumes "bo = bigEndian \<or> bo = littleEndian"
  shows "isl (fst (putUint8 bo t v k)) \<longleftrightarrow>
           length t < k + 1 \<or> js_lt v (Finite 0) \<or> js_lt (Finite 255) v"
    and "isl (fst (putUint16 bo t v k)) \<longleftrightarrow>
           length t < k + 2 \<or> js_lt v (Finite 0) \<or> js_lt (Finite 65535) v"
    and "isl (fst (putUint32 bo t v k)) \<longleftrightarrow>
           length t < k + 4 \<or> js_lt v (Finite 0) \<or> js_lt (Finite 4294967295) v"
    and "isl (fst (putUint64 bo t n k)) \<longleftrightarrow>
           length t < k + 8 \<or> n < 0 \<or> n > 18446744073709551615"
  using assms
  by (auto simp: bigEndian_def littleEndian_def BigEndian_defs LittleEndian_defs
      split: if_splits)

lemma put_number_failed_unchanged:
  assumes "bo = bigEndian \<or> bo = littleEndian"
  shows "isl (fst (putUint8 bo t v k)) \<Longrightarrow> snd (putUint8 bo t v k) = t"
    and "isl (fst (putUint16 bo t v k)) \<Longrightarrow> snd (putUint16 bo t v k) = t"
    and "isl (fst (putUint32 bo t v k)) \<Longrightarrow> snd (putUint32 bo t v k) = t"
    and "isl (fst (putUint64 bo t n k)) \<Longrightarrow> snd (putUint64 bo t n k) = t"
  using assms
  by (auto simp: bigEndian_def littleEndian_def BigEndian_defs LittleEndian_defs
      split: if_splits)

text \<open>
  Claim C2, at the input where the code departs from it. The claim is that a put-uint
  whose value is outside \<open>[0, 2^w - 1]\<close> fails with an error and leaves its target
  unchanged. \<^verbatim>\<open>NaN\<close> is outside that range, but both comparisons of the range guard are
  false for it: \<open>putUint8\<close>, \<open>putUint16\<close> and \<open>putUint32\<close> of either byte order
  return normally on \<^verbatim>\<open>NaN\<close> and overwrite the span with zero bytes.
\<close>

theorem putUint_NaN_overwrites_target:
  "putUint8 bigEndian [7] NaN 0 = (Inr (), [0]) \<and>
   putUint16 littleEndian [7, 7, 7] NaN 1 = (Inr (), [7, 0, 0]) \<and>
   putUint32 bigEndian [7, 7, 7, 7] NaN 0 = (Inr (), [0, 0, 0, 0])"
  by (simp add: bigEndian_def littleEndian_def BigEndian_putUint8_def LittleEndian_putUint16_def
      BigEndian_putUint32_def store_def js_defs upt_4)

text \<open>
  Claim C3, at the input where the code departs from it. The claim is that read-uint and
  put-uint fail exactly when their array is shorter than \<open>k + w/8\<close>, put-uint failing
  also on every out-of-range value. The part on reads and on short targets holds
  (\<open>read_uint_fails_iff\<close>, \<open>put_number_fails_iff\<close>); but on the out-of-range value
  \<^verbatim>\<open>NaN\<close>, with a target that is long enough, \<open>putUint8\<close>, \<open>putUint16\<close> and
  \<open>putUint32\<close> do not fail. It is the defect of claim C2.
\<close>

theorem putUint_NaN_does_not_fail:
  "fst (putUint8 littleEndian [1] NaN 0) = Inr () \<and>
   fst (putUint16 bigEndian [1, 2] NaN 0) = Inr () \<and>
   fst (putUint32 littleEndian [1, 2, 3, 4, 5] NaN 1) = Inr ()"
  by (simp add: bigEndian_def littleEndian_def LittleEndian_putUint8_def BigEndian_putUint16_def
      LittleEndian_putUint32_def)

text \<open>
  Claim C7: for every width, value in range and valid offset, the \<open>w/8\<close> bytes that
  the big-endian put-uint writes at \<open>[k, k + w/8)\<close> are the reversal of the bytes the
  little-endian put-uint writes there; for width 8 both write the same single byte, and
  the whole target is the same afterwards.
\<close>

theorem put_uint_big_is_reversed_little:
  assumes "0 \<le> v" and "v \<le> 2 ^ (8 * nbytes w) - 1" and "k + nbytes w \<le> length target"
  shows "take (nbytes w) (drop k (snd (put_uint w bigEndian target v k))) =
           rev (take (nbytes w) (drop k (snd (put_uint w littleEndian target v k)))) \<and>
         (w = W8 \<longrightarrow>
            snd (put_uint w bigEndian target v k) = snd (put_uint w littleEndian target v k))"
  using assms
  by (cases w)
    (simp_all add: bigEndian_def littleEndian_def BigEndian_defs LittleEndian_defs
      fold_store store_store store_one upt_4 upt_8)

theorem put_uint_big_is_reversed_little_witness:
  "(0::int) \<le> 305419896 \<and> (305419896::int) \<le> 2 ^ (8 * nbytes W32) - 1 \<and>
   1 + nbytes W32 \<le> length [9, 0, 0, 0, 0, 9 :: byte] \<and>
   take (nbytes W32) (drop 1 (snd (put_uint W32 bigEndian [9, 0, 0, 0, 0, 9] 305419896 1))) =
     rev (take (nbytes W32)
            (drop 1 (snd (put_uint W32 littleEndian [9, 0, 0, 0, 0, 9] 305419896 1)))) \<and>
   take (nbytes W32) (drop 1 (snd (put_uint W32 bigEndian [9, 0, 0, 0, 0, 9] 305419896 1))) =
     [18, 52, 86, 120] \<and>
   (0::int) \<le> 200 \<and> (200::int) \<le> 2 ^ (8 * nbytes W8) - 1 \<and>
   1 + nbytes W8 \<le> length [9, 0, 9 :: byte] \<and> W8 = W8 \<and>
   snd (put_uint W8 bigEndian [9, 0, 9] 200 1) = snd (put_uint W8 littleEndian [9, 0, 9] 200 1)"
  using put_uint_big_is_reversed_little
    [where v = 305419896 and w = W32 and k = 1 and target = "[9, 0, 0, 0, 0, 9]"]
    put_uint_big_is_reversed_little
    [where v = 200 and w = W8 and k = 1 and target = "[9, 0, 9]"]
  by (simp add: bigEndian_def BigEndian_putUint32_def store_def js_defs upt_4)

section \<open>Properties of the big-integer codec\<close>

lemma byteLength_loop_ge: "n \<le> byteLength_loop v n"
proof (induction v n rule: byteLength_loop.induct)
  case (1 v n)
  show ?case
  proof (cases "v > 2 ^ (n * 8) - 1")
    case True
    with 1 show ?thesis by (subst byteLength_loop.simps) simp
  next
    case False
    then show ?thesis by (subst byteLength_loop.simps) simp
  qed
qed

lemma byteLength_loop_fits: "v \<le> 2 ^ (byteLength_loop v n * 8) - 1"
proof (induction v n rule: byteLength_loop.induct)
  case (1 v n)
  show ?case
  proof (cases "v > 2 ^ (n * 8) - 1")
    case True
    with 1 show ?thesis by (subst byteLength_loop.simps) simp
  next
    case False
    then show ?thesis by (subst byteLength_loop.simps) simp
  qed
qed

lemma byteLength_loop_least:
  "n \<le> m \<Longrightarrow> v \<le> 2 ^ (m * 8) - 1 \<Longrightarrow> byteLength_loop v n \<le> m"
proof (induction v n rule: byteLength_loop.induct)
  case (1 v n)
  show ?case
  proof (cases "v > 2 ^ (n * 8) - 1")
    case True
    have "n \<noteq> m" using True "1.prems"(2) by auto
    with "1.prems" have "n + 1 \<le> m" by simp
    with 1 True show ?thesis by (subst byteLength_loop.simps) simp
  next
    case False
    with "1.prems" show ?thesis by (subst byteLength_loop.simps) simp
  qed
qed

lemma fold_cong_inv:
  assumes "P s" and "\<And>x s. P s \<Longrightarrow> f x s = g x s \<and> P (g x s)"
  shows "fold f xs s = fold g xs s"
  using assms(1)
proof (induction xs arbitrary: s)
  case Nil
  then show ?case by simp
next
  case (Cons x xs)
  then show ?case using assms(2) by simp
qed

lemma bigIntBytes_eq:
  "bigIntBytes x = be_bytes (byteLength_loop \<bar>x\<bar> 1) \<bar>x\<bar>"
proof -
  define v where "v = \<bar>x\<bar>"
  define n where "n = byteLength_loop v 1"
  have v: "(if x < 0 then x * - 1 else x) = v" by (simp add: v_def)
  have "fold (\<lambda>i enc. store enc i (drop_bit ((length enc - i - 1) * 8) v AND 255)) [0..<n] (replicate n 0)
      = fold (\<lambda>i enc. store enc (0 + i) (drop_bit ((n - i - 1) * 8) v AND 255)) [0..<n] (replicate n 0)"
    by (rule fold_cong_inv [where P = "\<lambda>s. length s = n"]) (simp_all add: store_def)
  also have "\<dots> = be_bytes n v"
    by (subst fold_store) (simp_all add: be_bytes_def)
  finally show ?thesis
    unfolding bigIntBytes_def v Let_def by (simp add: n_def v_def)
qed

lemma fold_add_sum: "fold (\<lambda>i d. d + h i) [0..<m] a = a + (\<Sum>i<m. h i :: int)"
  by (induction m) simp_all

lemma pow2_8: "(2::int) ^ (k * 8) = 256 ^ k"
proof -
  have "(2::int) ^ (8 * k) = (2 ^ 8) ^ k" by (rule power_mult)
  then show ?thesis by (simp add: mult.commute)
qed

lemma bigIntFromBytes_eq:
  "bigIntFromBytes bs = (if bs = [] then Inl (TypeError ''Empty Uint8Array'') else Inr (be_sum bs))"
  by (cases bs) (simp_all add: bigIntFromBytes_def fold_add_sum be_sum_def load_def push_bit_eq_mult pow2_8 del: upt_Suc)

lemma be_sum_Cons: "be_sum (x # xs) = uint x * 256 ^ length xs + be_sum xs"
  by (simp add: be_sum_def sum.lessThan_Suc_shift del: sum.lessThan_Suc)

lemma be_sum_bounds: "0 \<le> be_sum xs \<and> be_sum xs < 256 ^ length xs"
proof (induction xs)
  case Nil
  then show ?case by (simp add: be_sum_def)
next
  case (Cons x xs)
  let ?P = "(256::int) ^ length xs"
  have "uint x \<le> 255" using uint_bounded [of x] by simp
  then have hi: "uint x * ?P \<le> 255 * ?P"
    by (simp add: mult_right_mono)
  have lo: "0 \<le> uint x * ?P" by simp
  from Cons have "0 \<le> be_sum xs" and "be_sum xs < ?P" by simp_all
  with hi lo have "0 \<le> uint x * ?P + be_sum xs" and "uint x * ?P + be_sum xs < 256 * ?P"
    by linarith+
  then show ?case by (simp add: be_sum_Cons)
qed

lemma be_sum_inj: "length xs = length ys \<Longrightarrow> be_sum xs = be_sum ys \<Longrightarrow> xs = ys"
proof (induction xs ys rule: list_induct2)
  case Nil
  then show ?case by simp
next
  case (Cons x xs y ys)
  let ?P = "(256::int) ^ length xs"
  have eq: "uint x * ?P + be_sum xs = uint y * ?P + be_sum ys"
    using Cons.prems Cons.hyps by (simp add: be_sum_Cons)
  have bx: "0 \<le> be_sum xs" "be_sum xs < ?P" using be_sum_bounds [of xs] by simp_all
  have by': "0 \<le> be_sum ys" "be_sum ys < ?P" using be_sum_bounds [of ys] Cons.hyps by simp_all
  have "(uint x * ?P + be_sum xs) div ?P = uint x" using bx by simp
  moreover have "(uint y * ?P + be_sum ys) div ?P = uint y" using by' by simp
  ultimately have "uint x = uint y" using eq by simp
  then have "x = y" by (rule word_uint_eqI)
  with eq Cons.IH show ?case by simp
qed

lemma be_sum_leading_zeros: "be_sum (replicate k 0 @ bs) = be_sum bs"
  by (induction k) (simp_all add: be_sum_Cons)

lemma digits_sum: "(\<Sum>j<n. (v div 256 ^ j mod 256) * 256 ^ j) = v mod 256 ^ n" for v :: int
proof (induction n)
  case 0
  then show ?case by simp
next
  case (Suc n)
  have "v mod (256 ^ n * 256) = 256 ^ n * (v div 256 ^ n mod 256) + v mod 256 ^ n"
    by (rule zmod_zmult2_eq) simp
  with Suc show ?case by (simp add: mult.commute)
qed

lemma byte_of_digit: "uint (word_of_int (drop_bit k v AND 255) :: byte) = v div 2 ^ k mod 256"
proof -
  have "drop_bit k v AND 255 = take_bit 8 (drop_bit k v)"
    using take_bit_eq_mask [of 8 "drop_bit k v"] by (simp add: mask_eq_exp_minus_1)
  then show ?thesis
    by (simp add: uint_word_of_int take_bit_eq_mod drop_bit_eq_div)
qed

lemma length_be_bytes: "length (be_bytes n v) = n"
  by (simp add: be_bytes_def)

lemma nth_be_bytes: "i < n \<Longrightarrow> be_bytes n v ! i = word_of_int (v div 2 ^ (8 * (n - 1 - i)) mod 256)"
proof -
  assume "i < n"
  then have "be_bytes n v ! i = word_of_int (drop_bit ((n - i - 1) * 8) v AND 255)"
    by (simp add: be_bytes_def)
  also have "\<dots> = word_of_int (uint (word_of_int (drop_bit ((n - i - 1) * 8) v AND 255) :: byte))"
    by simp
  also have "\<dots> = word_of_int (v div 2 ^ (8 * (n - 1 - i)) mod 256)"
    by (simp only: byte_of_digit) (simp add: mult.commute)
  finally show ?thesis .
qed

lemma be_sum_be_bytes: "be_sum (be_bytes n v) = v mod 256 ^ n"
proof -
  have "be_sum (be_bytes n v) = (\<Sum>i<n. (v div 256 ^ (n - Suc i) mod 256) * 256 ^ (n - Suc i))"
    unfolding be_sum_def length_be_bytes
    by (rule sum.cong) (simp_all add: be_bytes_def byte_of_digit pow2_8)
  also have "\<dots> = (\<Sum>j<n. (v div 256 ^ j mod 256) * 256 ^ j)"
    by (rule sum.nat_diff_reindex)
  finally show ?thesis by (simp add: digits_sum)
qed

lemma byteLength_facts:
  fixes a :: int
  assumes "0 \<le> a"
  defines "n \<equiv> byteLength_loop a 1"
  shows "1 \<le> n" and "a < 256 ^ n" and "a mod 256 ^ n = a"
proof -
  show "1 \<le> n" unfolding n_def by (rule byteLength_loop_ge)
  have "a \<le> 2 ^ (n * 8) - 1" unfolding n_def by (rule byteLength_loop_fits)
  then show lt: "a < 256 ^ n" by (simp add: pow2_8)
  with assms(1) show "a mod 256 ^ n = a" by simp
qed

lemma be_sum_bigIntBytes: "be_sum (bigIntBytes v) = \<bar>v\<bar>"
  using byteLength_facts(3) [of "\<bar>v\<bar>"] by (simp add: bigIntBytes_eq be_sum_be_bytes)

lemma length_bigIntBytes: "length (bigIntBytes v) = byteLength_loop \<bar>v\<bar> 1"
  by (simp add: bigIntBytes_eq length_be_bytes)

lemma bigIntBytes_nonempty: "bigIntBytes v \<noteq> []"
proof -
  have "1 \<le> length (bigIntBytes v)"
    unfolding length_bigIntBytes by (rule byteLength_loop_ge)
  then show ?thesis by auto
qed

lemma bigIntBytes_leading_nonzero:
  assumes "v \<noteq> 0"
  shows "bigIntBytes v ! 0 \<noteq> 0"
proof
  assume zero: "bigIntBytes v ! 0 = 0"
  obtain x xs where bs: "bigIntBytes v = x # xs"
    using bigIntBytes_nonempty [of v] by (cases "bigIntBytes v") auto
  with zero have x: "x = 0" by simp
  have "\<bar>v\<bar> = be_sum (x # xs)" using be_sum_bigIntBytes [of v] bs by simp
  also have "\<dots> = be_sum xs" using x by (simp add: be_sum_Cons)
  finally have small: "\<bar>v\<bar> < 256 ^ length xs" using be_sum_bounds [of xs] by simp
  have len: "byteLength_loop \<bar>v\<bar> 1 = Suc (length xs)"
    using length_bigIntBytes [of v] bs by simp
  show False
  proof (cases xs)
    case Nil
    with small assms show False by simp
  next
    case (Cons y ys)
    then have "1 \<le> length xs" by simp
    moreover have "\<bar>v\<bar> \<le> 2 ^ (length xs * 8) - 1" using small by (simp add: pow2_8)
    ultimately have "byteLength_loop \<bar>v\<bar> 1 \<le> length xs" by (rule byteLength_loop_least)
    with len show False by simp
  qed
qed

lemma bigIntBytes_canonical:
  assumes "1 \<le> length b" and "1 < length b \<longrightarrow> b ! 0 \<noteq> 0"
  shows "bigIntBytes (be_sum b) = b"
proof -
  let ?y = "be_sum b"
  have y: "0 \<le> ?y" "?y < 256 ^ length b" using be_sum_bounds [of b] by simp_all
  then have abs: "\<bar>?y\<bar> = ?y" by simp
  have "?y \<le> 2 ^ (length b * 8) - 1" using y by (simp add: pow2_8)
  with assms(1) have le: "byteLength_loop ?y 1 \<le> length b" by (rule byteLength_loop_least)
  have ge: "length b \<le> byteLength_loop ?y 1"
  proof (cases "1 < length b")
    case False
    with assms(1) have "length b = 1" by simp
    then show ?thesis using byteLength_loop_ge [of 1 ?y] by simp
  next
    case True
    then obtain x xs where b: "b = x # xs" by (cases b) auto
    with True assms(2) have "x \<noteq> 0" by simp
    then have "1 \<le> uint x" using uint_0_iff [of x] uint_ge_0 [of x] by linarith
    then have "1 * 256 ^ length xs \<le> uint x * 256 ^ length xs"
      by (intro mult_right_mono) simp_all
    moreover have "0 \<le> be_sum xs"
      using be_sum_bounds [of xs] by simp
    ultimately have "256 ^ length xs \<le> uint x * 256 ^ length xs + be_sum xs"
      by linarith
    then have "256 ^ length xs \<le> ?y"
      by (simp add: b be_sum_Cons)
    also have "?y < 256 ^ byteLength_loop ?y 1"
      using byteLength_facts(2) [OF y(1)] .
    finally have "length xs < byteLength_loop ?y 1" by simp
    then show ?thesis by (simp add: b)
  qed
  from le ge have len: "length (bigIntBytes ?y) = length b"
    by (simp add: length_bigIntBytes abs)
  moreover have "be_sum (bigIntBytes ?y) = be_sum b"
    by (simp add: be_sum_bigIntBytes abs)
  ultimately show ?thesis by (rule be_sum_inj)
qed

text \<open>
  Claim C4: for every non-negative integer \<open>x\<close>, decoding the bytes of \<open>x\<close> gives
  \<open>x\<close> back; and for every canonical byte sequence \<open>b\<close> (at least one byte, and a
  non-zero first byte when there is more than one), decoding \<open>b\<close> succeeds and encoding
  the result gives \<open>b\<close> back.
\<close>

theorem bigInt_roundtrip:
  "(0 \<le> x \<longrightarrow> bigIntFromBytes (bigIntBytes x) = Inr x) \<and>
   (1 \<le> length b \<and> (1 < length b \<longrightarrow> b ! 0 \<noteq> 0) \<longrightarrow>
      (\<exists>y. bigIntFromBytes b = Inr y \<and> bigIntBytes y = b))"
proof (intro conjI impI)
  assume "0 \<le> x"
  then show "bigIntFromBytes (bigIntBytes x) = Inr x"
    by (simp add: bigIntFromBytes_eq bigIntBytes_nonempty be_sum_bigIntBytes)
next
  assume c: "1 \<le> length b \<and> (1 < length b \<longrightarrow> b ! 0 \<noteq> 0)"
  then have "b \<noteq> []" by auto
  then have "bigIntFromBytes b = Inr (be_sum b)" by (simp add: bigIntFromBytes_eq)
  moreover have "bigIntBytes (be_sum b) = b" using c by (intro bigIntBytes_canonical) simp_all
  ultimately show "\<exists>y. bigIntFromBytes b = Inr y \<and> bigIntBytes y = b" by blast
qed

theorem bigInt_roundtrip_witness:
  "(0::int) \<le> 300 \<and> bigIntFromBytes (bigIntBytes 300) = Inr 300 \<and>
   1 \<le> length [1, 44 :: byte] \<and> 1 < length [1, 44 :: byte] \<and> [1, 44 :: byte] ! 0 \<noteq> 0 \<and>
   (\<exists>y. bigIntFromBytes [1, 44] = Inr y \<and> bigIntBytes y = [1, 44])"
  using bigInt_roundtrip [where x = 300 and b = "[1, 44]"] by simp

text \<open>
  Claim C5: for every integer \<open>v\<close>, negative ones included, \<open>bigIntBytes v\<close> has the
  least number \<open>n \<ge> 1\<close> of bytes with \<open>\<bar>v\<bar> \<le> 2^(8n) - 1\<close>; its byte \<open>i\<close> holds bits
  \<open>[8(n-1-i), 8(n-i))\<close> of \<open>\<bar>v\<bar>\<close>, so that it decodes to \<open>\<bar>v\<bar>\<close>; its first byte is
  not zero unless \<open>v = 0\<close>; \<open>bigIntBytes 0\<close> is the single byte \<open>0x00\<close>; and
  \<open>bigIntBytes (- v) = bigIntBytes v\<close>.
\<close>

theorem bigIntBytes_minimal_magnitude:
  "1 \<le> length (bigIntBytes v) \<and>
   \<bar>v\<bar> \<le> 2 ^ (8 * length (bigIntBytes v)) - 1 \<and>
   (\<forall>m. 1 \<le> m \<and> \<bar>v\<bar> \<le> 2 ^ (8 * m) - 1 \<longrightarrow> length (bigIntBytes v) \<le> m) \<and>
   (\<forall>i<length (bigIntBytes v).
      bigIntBytes v ! i = word_of_int (\<bar>v\<bar> div 2 ^ (8 * (length (bigIntBytes v) - 1 - i)) mod 256)) \<and>
   bigIntFromBytes (bigIntBytes v) = Inr \<bar>v\<bar> \<and>
   (v \<noteq> 0 \<longrightarrow> bigIntBytes v ! 0 \<noteq> 0) \<and>
   bigIntBytes 0 = [0] \<and>
   bigIntBytes (- v) = bigIntBytes v"
proof (intro conjI allI impI)
  show "1 \<le> length (bigIntBytes v)"
    unfolding length_bigIntBytes by (rule byteLength_loop_ge)
  show "\<bar>v\<bar> \<le> 2 ^ (8 * length (bigIntBytes v)) - 1"
    using byteLength_loop_fits [of "\<bar>v\<bar>" 1] by (simp add: length_bigIntBytes mult.commute)
  show "length (bigIntBytes v) \<le> m" if "1 \<le> m \<and> \<bar>v\<bar> \<le> 2 ^ (8 * m) - 1" for m
    using that byteLength_loop_least [of 1 m "\<bar>v\<bar>"] by (simp add: length_bigIntBytes mult.commute)
  show "bigIntBytes v ! i = word_of_int (\<bar>v\<bar> div 2 ^ (8 * (length (bigIntBytes v) - 1 - i)) mod 256)"
    if "i < length (bigIntBytes v)" for i
    using that by (simp add: bigIntBytes_eq length_be_bytes nth_be_bytes)
  show "bigIntFromBytes (bigIntBytes v) = Inr \<bar>v\<bar>"
    by (simp add: bigIntFromBytes_eq bigIntBytes_nonempty be_sum_bigIntBytes)
  show "bigIntBytes v ! 0 \<noteq> 0" if "v \<noteq> 0"
    using that by (rule bigIntBytes_leading_nonzero)
  have "byteLength_loop 0 1 = 1"
    by (subst byteLength_loop.simps) simp
  then show "bigIntBytes 0 = [0]"
    by (simp add: bigIntBytes_eq be_bytes_def)
  show "bigIntBytes (- v) = bigIntBytes v"
    by (simp add: bigIntBytes_eq)
qed

theorem bigIntBytes_minimal_magnitude_witness:
  "(- 65536 :: int) \<noteq> 0 \<and> bigIntBytes (- 65536) ! 0 \<noteq> 0 \<and>
   1 \<le> (3::nat) \<and> \<bar>- 65536 :: int\<bar> \<le> 2 ^ (8 * 3) - 1 \<and>
   length (bigIntBytes (- 65536)) \<le> 3 \<and>
   0 < length (bigIntBytes (- 65536)) \<and>
   bigIntBytes (- 65536) ! 0 =
     word_of_int (\<bar>- 65536\<bar> div 2 ^ (8 * (length (bigIntBytes (- 65536)) - 1 - 0)) mod 256)"
proof -
  note t = bigIntBytes_minimal_magnitude [where v = "- 65536"]
  from t have "\<forall>m. 1 \<le> m \<and> \<bar>- 65536 :: int\<bar> \<le> 2 ^ (8 * m) - 1 \<longrightarrow>
      length (bigIntBytes (- 65536)) \<le> m"
    by (elim conjE)
  then have "1 \<le> (3::nat) \<and> \<bar>- 65536 :: int\<bar> \<le> 2 ^ (8 * 3) - 1 \<longrightarrow>
      length (bigIntBytes (- 65536)) \<le> 3"
    by (rule spec)
  then have len: "length (bigIntBytes (- 65536)) \<le> 3"
    by simp
  from t have "\<forall>i<length (bigIntBytes (- 65536)). bigIntBytes (- 65536) ! i =
      word_of_int (\<bar>- 65536\<bar> div 2 ^ (8 * (length (bigIntBytes (- 65536)) - 1 - i)) mod 256)"
    by (elim conjE)
  then have first: "0 < length (bigIntBytes (- 65536)) \<longrightarrow>
      bigIntBytes (- 65536) ! 0 =
        word_of_int (\<bar>- 65536\<bar> div 2 ^ (8 * (length (bigIntBytes (- 65536)) - 1 - 0)) mod 256)"
    by (rule spec)
  from t have "(- 65536 :: int) \<noteq> 0 \<longrightarrow> bigIntBytes (- 65536) ! 0 \<noteq> 0"
    by (elim conjE)
  then have "bigIntBytes (- 65536) ! 0 \<noteq> 0"
    by simp
  moreover from t have "1 \<le> length (bigIntBytes (- 65536))"
    by (elim conjE)
  ultimately show ?thesis
    using len first by auto
qed

text \<open>
  Claim C6: \<open>bigIntFromBytes\<close> fails exactly on the empty sequence; on a non-empty
  sequence of length \<open>n\<close> it returns \<open>\<Sum> bytes[i] * 256^(n-1-i)\<close>; zero bytes put in
  front of a non-empty sequence do not change the result, and the value of any sequence
  is also the value of its canonical form, the encoding of that value.
\<close>

theorem bigIntFromBytes_lenient:
  "(isl (bigIntFromBytes bs) \<longleftrightarrow> bs = []) \<and>
   (bs \<noteq> [] \<longrightarrow>
      bigIntFromBytes bs = Inr (\<Sum>i<length bs. uint (bs ! i) * 256 ^ (length bs - 1 - i))) \<and>
   (bs \<noteq> [] \<longrightarrow> bigIntFromBytes (replicate k 0 @ bs) = bigIntFromBytes bs) \<and>
   (\<forall>y. bigIntFromBytes bs = Inr y \<longrightarrow> bigIntFromBytes (bigIntBytes y) = Inr y)"
proof (intro conjI allI impI)
  show "isl (bigIntFromBytes bs) \<longleftrightarrow> bs = []"
    by (simp add: bigIntFromBytes_eq)
  show "bigIntFromBytes bs = Inr (\<Sum>i<length bs. uint (bs ! i) * 256 ^ (length bs - 1 - i))"
    if "bs \<noteq> []"
    using that by (simp add: bigIntFromBytes_eq be_sum_def)
  show "bigIntFromBytes (replicate k 0 @ bs) = bigIntFromBytes bs" if "bs \<noteq> []"
    using that by (simp add: bigIntFromBytes_eq be_sum_leading_zeros)
  show "bigIntFromBytes (bigIntBytes y) = Inr y" if "bigIntFromBytes bs = Inr y" for y
  proof -
    from that have "y = be_sum bs" by (auto simp: bigIntFromBytes_eq split: if_splits)
    then have "0 \<le> y" using be_sum_bounds [of bs] by simp
    then show ?thesis
      by (simp add: bigIntFromBytes_eq bigIntBytes_nonempty be_sum_bigIntBytes)
  qed
qed

theorem bigIntFromBytes_lenient_witness:
  "[1, 0 :: byte] \<noteq> [] \<and>
   bigIntFromBytes [1, 0] = Inr (\<Sum>i<length [1, 0 :: byte].
                                  uint ([1, 0 :: byte] ! i) * 256 ^ (length [1, 0 :: byte] - 1 - i)) \<and>
   bigIntFromBytes (replicate 2 0 @ [1, 0]) = bigIntFromBytes [1, 0] \<and>
   bigIntFromBytes [1, 0] = Inr 256 \<and>
   bigIntFromBytes (bigIntBytes 256) = Inr 256"
proof -
  note t = bigIntFromBytes_lenient [where bs = "[1, 0]" and k = 2]
  have v: "bigIntFromBytes [1, 0] = Inr 256"
    by (simp add: bigIntFromBytes_def load_def upt_rec)
  from t have "\<forall>y. bigIntFromBytes [1, 0] = Inr y \<longrightarrow> bigIntFromBytes (bigIntBytes y) = Inr y"
    by (elim conjE)
  then have "bigIntFromBytes [1, 0] = Inr 256 \<longrightarrow> bigIntFromBytes (bigIntBytes 256) = Inr 256"
    by (rule spec)
  with v have "bigIntFromBytes (bigIntBytes 256) = Inr 256"
    by simp
  with t v show ?thesis
    by simp
qed

section \<open>Properties of the growable buffer\<close>

lemma grow_fits: "need \<le> grow need cap"
proof (induction need cap rule: grow.induct)
  case (1 need cap)
  show ?case
  proof (cases "need > cap")
    case True
    with 1 show ?thesis by (subst grow.simps) simp
  next
    case False
    then show ?thesis by (subst grow.simps) simp
  qed
qed

lemma grow_mono: "cap \<le> grow need cap"
proof (induction need cap rule: grow.induct)
  case (1 need cap)
  show ?case
  proof (cases "need > cap")
    case True
    with 1 have "(if cap = 0 then 1 else cap * 2) \<le> grow need cap"
      by (subst grow.simps) simp
    then show ?thesis by (simp split: if_splits)
  next
    case False
    then show ?thesis by (subst grow.simps) simp
  qed
qed

text \<open>
  When the loop runs at all, its result is the old capacity (1 for 0) doubled some number
  of times, and half of it would not have been enough.
\<close>

lemma grow_doubles:
  "cap < need \<Longrightarrow>
   (\<exists>j. grow need cap = max 1 cap * 2 ^ j) \<and> grow need cap div 2 < need"
proof (induction need cap rule: grow.induct)
  case (1 need cap)
  let ?next = "if cap = 0 then 1 else cap * 2"
  have unfold: "grow need cap = grow need ?next"
    using "1.prems" by (subst grow.simps) simp
  show ?case
  proof (cases "?next < need")
    case False
    then have stop: "grow need ?next = ?next"
      by (subst grow.simps) simp
    have "?next = max 1 cap * 2 ^ (if cap = 0 then 0 else 1)"
      by simp
    then have "\<exists>j. ?next = max 1 cap * 2 ^ j" ..
    moreover have "?next div 2 < need"
      using "1.prems" by simp
    ultimately show ?thesis
      by (simp only: unfold stop)
  next
    case True
    with "1.IH" "1.prems"
    have ih: "(\<exists>j. grow need ?next = max 1 ?next * 2 ^ j) \<and> grow need ?next div 2 < need"
      by simp
    then have half: "grow need ?next div 2 < need" ..
    from ih obtain j where j: "grow need ?next = max 1 ?next * 2 ^ j"
      by blast
    have "max 1 ?next * 2 ^ j = max 1 cap * 2 ^ (if cap = 0 then j else Suc j)"
      by simp
    with j have "\<exists>i. grow need ?next = max 1 cap * 2 ^ i"
      by (intro exI) simp
    with half show ?thesis
      by (simp only: unfold)
  qed
qed

text \<open>
  The constructor establishes the representation invariant, and \<^verbatim>\<open>write\<close>,
  \<open>writeByte\<close> and \<open>clear\<close> keep it; under it no \<^verbatim>\<open>set\<close> throws.
\<close>

lemma buffer_inv_new: "buffer_inv (DynamicBuffer_new c)"
  by (simp add: buffer_inv_def DynamicBuffer_new_def)


lemma write_ok:
  assumes "buffer_inv b"
  shows "fst (write' b bs) = Inr ()"
    and "buffer_inv (snd (write' b bs))"
    and "length' (snd (write' b bs)) = length' b + length bs"
    and "bytes (snd (write' b bs)) = bytes b @ bs"
    and "capacity (snd (write' b bs)) =
           (if length' b + length bs \<le> capacity b then capacity b
            else grow (length' b + length bs) (capacity b))"
  using assms grow_fits [of "length' b + length bs" "capacity b"]
  by (simp_all add: write'_def buffer_inv_def set_bytes_def subarray_def bytes_def slice_def Let_def)

lemma writeByte_ok:
  assumes "buffer_inv b"
  shows "fst (writeByte b byte) = Inr ()"
    and "buffer_inv (snd (writeByte b byte))"
    and "length' (snd (writeByte b byte)) = length' b + 1"
    and "bytes (snd (writeByte b byte)) = bytes b @ [word_of_int (js_trunc byte)]"
    and "capacity (snd (writeByte b byte)) =
           (if length' b + 1 \<le> capacity b then capacity b else max 1 (2 * capacity b))"
    and "value' (snd (writeByte b byte)) ! length' b = word_of_int (js_trunc byte)"
  using assms
  by (auto simp add: writeByte_def buffer_inv_def set_bytes_def subarray_def bytes_def slice_def
      Let_def store_def take_Suc_conv_app_nth nth_append)


lemma clear_inv: "buffer_inv b \<Longrightarrow> buffer_inv (clear b)"
  by (simp add: buffer_inv_def clear_def)

lemma reachable_inv: "reachable b \<Longrightarrow> buffer_inv b"
  by (induction rule: reachable.induct)
    (simp_all add: buffer_inv_new write_ok(2) writeByte_ok(2) clear_inv)

lemma grow_1_0: "grow (Suc 0) 0 = Suc 0"
  by code_simp

lemma grow_101_1: "grow 101 (Suc 0) = 128"
  by code_simp

text \<open>
  Claim C8: a buffer constructed with capacity 0 has, after a write of a 1-byte chunk,
  length 1 and capacity 1; after a further write of a 100-byte chunk, length 101 and
  capacity 128 (the capacity 1 doubled until 101 bytes fit, not 101); and after a further
  write of a 27-byte chunk, which fits, length 128 and capacity 128. None of the calls
  throws. In general a write that fits leaves the capacity as it is, and a write that does
  not fit leaves it at the old capacity (1 when that was 0) doubled some number of times,
  large enough for the content, with half of it too small.
\<close>

theorem write_1_100_27_from_capacity_0:
  assumes "length c1 = 1" and "length c2 = 100" and "length c3 = 27"
  shows "fst (run (DynamicBuffer_new 0) [Write c1, Write c2, Write c3]) = Inr () \<and>
         length' (snd (run (DynamicBuffer_new 0) [Write c1])) = 1 \<and>
         capacity (snd (run (DynamicBuffer_new 0) [Write c1])) = 1 \<and>
         length' (snd (run (DynamicBuffer_new 0) [Write c1, Write c2])) = 101 \<and>
         capacity (snd (run (DynamicBuffer_new 0) [Write c1, Write c2])) = 128 \<and>
         length' (snd (run (DynamicBuffer_new 0) [Write c1, Write c2, Write c3])) = 128 \<and>
         capacity (snd (run (DynamicBuffer_new 0) [Write c1, Write c2, Write c3])) = 128 \<and>
         (\<forall>b bs. length' b + length bs \<le> capacity b \<longrightarrow>
            capacity (snd (write' b bs)) = capacity b) \<and>
         (\<forall>b bs. capacity b < length' b + length bs \<longrightarrow>
            (\<exists>j. capacity (snd (write' b bs)) = max 1 (capacity b) * 2 ^ j) \<and>
            length' b + length bs \<le> capacity (snd (write' b bs)) \<and>
            capacity (snd (write' b bs)) div 2 < length' b + length bs)"
proof -
  let ?b0 = "DynamicBuffer_new 0"
  obtain r1 b1 where w1: "write' ?b0 c1 = (r1, b1)" by (cases "write' ?b0 c1")
  obtain r2 b2 where w2: "write' b1 c2 = (r2, b2)" by (cases "write' b1 c2")
  obtain r3 b3 where w3: "write' b2 c3 = (r3, b3)" by (cases "write' b2 c3")
  have i0: "buffer_inv ?b0" by (rule buffer_inv_new)
  have s1: "r1 = Inr ()" "buffer_inv b1" "length' b1 = 1" "capacity b1 = 1"
    using write_ok [OF i0, of c1] w1 assms(1) by (simp_all add: DynamicBuffer_new_def grow_1_0)
  have s2: "r2 = Inr ()" "buffer_inv b2" "length' b2 = 101" "capacity b2 = 128"
    using write_ok [OF s1(2), of c2] w2 assms(2) s1 by (simp_all add: grow_101_1)
  have s3: "r3 = Inr ()" "length' b3 = 128" "capacity b3 = 128"
    using write_ok [OF s2(2), of c3] w3 assms(3) s2 by simp_all
  have scenario: "fst (run ?b0 [Write c1, Write c2, Write c3]) = Inr () \<and>
      length' (snd (run ?b0 [Write c1])) = 1 \<and> capacity (snd (run ?b0 [Write c1])) = 1 \<and>
      length' (snd (run ?b0 [Write c1, Write c2])) = 101 \<and>
      capacity (snd (run ?b0 [Write c1, Write c2])) = 128 \<and>
      length' (snd (run ?b0 [Write c1, Write c2, Write c3])) = 128 \<and>
      capacity (snd (run ?b0 [Write c1, Write c2, Write c3])) = 128"
    by (simp add: w1 w2 w3 s1 s2 s3)
  have fits: "capacity (snd (write' b bs)) = capacity b"
    if "length' b + length bs \<le> capacity b" for b bs
    using that by (simp add: write'_def split: sum.splits)
  have grows: "(\<exists>j. capacity (snd (write' b bs)) = max 1 (capacity b) * 2 ^ j) \<and>
      length' b + length bs \<le> capacity (snd (write' b bs)) \<and>
      capacity (snd (write' b bs)) div 2 < length' b + length bs"
    if "capacity b < length' b + length bs" for b bs
  proof -
    have "capacity (snd (write' b bs)) = grow (length' b + length bs) (capacity b)"
      using that by (simp add: write'_def Let_def split: sum.splits)
    with grow_doubles [OF that] grow_fits [of "length' b + length bs" "capacity b"]
    show ?thesis by simp
  qed
  from scenario fits grows show ?thesis
    by blast
qed

theorem write_1_100_27_from_capacity_0_witness:
  "length [1 :: byte] = 1 \<and> length (replicate 100 (7 :: byte)) = 100 \<and>
   length (replicate 27 (9 :: byte)) = 27 \<and>
   fst (run (DynamicBuffer_new 0) [Write [1], Write (replicate 100 7), Write (replicate 27 9)])
     = Inr () \<and>
   capacity (snd (run (DynamicBuffer_new 0) [Write [1]])) = 1 \<and>
   capacity (snd (run (DynamicBuffer_new 0) [Write [1], Write (replicate 100 7)])) = 128 \<and>
   length' (snd (run (DynamicBuffer_new 0)
                   [Write [1], Write (replicate 100 7), Write (replicate 27 9)])) = 128 \<and>
   capacity (snd (run (DynamicBuffer_new 0)
                    [Write [1], Write (replicate 100 7), Write (replicate 27 9)])) = 128 \<and>
   length' \<lparr>value' = [1, 0], capacity = 2, length' = 1\<rparr> + length [5 :: byte]
     \<le> capacity \<lparr>value' = [1, 0], capacity = 2, length' = 1\<rparr> \<and>
   capacity (snd (write' \<lparr>value' = [1, 0], capacity = 2, length' = 1\<rparr> [5])) = 2 \<and>
   capacity \<lparr>value' = [1, 0, 0], capacity = 3, length' = 2\<rparr>
     < length' \<lparr>value' = [1, 0, 0], capacity = 3, length' = 2\<rparr> + length [5, 6, 7, 8, 9 :: byte] \<and>
   capacity (snd (write' \<lparr>value' = [1, 0, 0], capacity = 3, length' = 2\<rparr> [5, 6, 7, 8, 9])) = 12"
proof -
  note t = write_1_100_27_from_capacity_0
    [where ?c1.0 = "[1]" and ?c2.0 = "replicate 100 7" and ?c3.0 = "replicate 27 9"]
  let ?b = "\<lparr>value' = [1, 0], capacity = 2, length' = 1\<rparr>"
  let ?c = "\<lparr>value' = [1, 0, 0], capacity = 3, length' = 2\<rparr>"
  have lens: "length [1 :: byte] = 1" "length (replicate 100 (7 :: byte)) = 100"
    "length (replicate 27 (9 :: byte)) = 27"
    by simp_all
  note u = t [OF lens]
  from u have "\<forall>b bs. length' b + length bs \<le> capacity b \<longrightarrow>
      capacity (snd (write' b bs)) = capacity b"
    by (elim conjE)
  then have "length' ?b + length [5 :: byte] \<le> capacity ?b \<longrightarrow>
      capacity (snd (write' ?b [5])) = capacity ?b"
    by blast
  then have fit: "capacity (snd (write' ?b [5])) = 2"
    by simp
  from u have "\<forall>b bs. capacity b < length' b + length bs \<longrightarrow>
      (\<exists>j. capacity (snd (write' b bs)) = max 1 (capacity b) * 2 ^ j) \<and>
      length' b + length bs \<le> capacity (snd (write' b bs)) \<and>
      capacity (snd (write' b bs)) div 2 < length' b + length bs"
    by (elim conjE)
  then have "capacity ?c < length' ?c + length [5, 6, 7, 8, 9 :: byte] \<longrightarrow>
      (\<exists>j. capacity (snd (write' ?c [5, 6, 7, 8, 9])) = max 1 (capacity ?c) * 2 ^ j) \<and>
      length' ?c + length [5, 6, 7, 8, 9 :: byte] \<le> capacity (snd (write' ?c [5, 6, 7, 8, 9])) \<and>
      capacity (snd (write' ?c [5, 6, 7, 8, 9])) div 2 < length' ?c + length [5, 6, 7, 8, 9 :: byte]"
    by blast
  moreover have "capacity (snd (write' ?c [5, 6, 7, 8, 9])) = 12"
    by (simp add: write'_def set_bytes_def subarray_def Let_def grow.simps [of 7 3]
        grow.simps [of 7 6] grow.simps [of 7 12])
  ultimately have grown: "capacity (snd (write' ?c [5, 6, 7, 8, 9])) = 12"
    by simp
  from u fit grown show ?thesis
    by simp
qed





end
